theory Spec2Isabelle
  imports Main "HOL-Library.Sublist" "HOL-Library.Word"
begin

section \<open>Exceptions\<close>

text \<open>
  Every \<^verbatim>\<open>raise\<close> of \<^verbatim>\<open>tools/efrotools/util.py\<close> is a constructor of \<open>error\<close>; the
  constructor carries the values the source formats into the message. The exceptions the
  built-ins raise (\<^verbatim>\<open>str.split\<close> with an empty separator, \<^verbatim>\<open>list.index\<close> of an absent
  element, \<^verbatim>\<open>open\<close> on a path that cannot be read) are constructors too. \<open>exc_class_of\<close> gives the
  Python class of each.
\<close>

datatype pytype = ListType | TupleType | StrType | NoneType

datatype error =
    FlagMultiple string
  | ArgNotPassed string
  | ArgMultiple string
  | ArgNoValue string
  | MarkerNotFound string
  | ExpectedOneMarker string nat
  | ExpectedOccurrences int "string option" nat string
  | ExpectedList pytype
  | ExpectedStr
  | EmptySeparator
  | NotInList string
  | OpenFailed string

datatype exc_class = CleanError | RuntimeError | TypeError | ValueError | OSError

fun exc_class_of :: "error \<Rightarrow> exc_class" where
  "exc_class_of (FlagMultiple name) = CleanError"
| "exc_class_of (ArgNotPassed name) = CleanError"
| "exc_class_of (ArgMultiple name) = CleanError"
| "exc_class_of (ArgNoValue name) = CleanError"
| "exc_class_of (MarkerNotFound marker) = RuntimeError"
| "exc_class_of (ExpectedOneMarker marker found) = RuntimeError"
| "exc_class_of (ExpectedOccurrences count label found old) = RuntimeError"
| "exc_class_of (ExpectedList t) = RuntimeError"
| "exc_class_of ExpectedStr = TypeError"
| "exc_class_of EmptySeparator = ValueError"
| "exc_class_of (NotInList x) = ValueError"
| "exc_class_of (OpenFailed path) = OSError"

section \<open>Argument lists\<close>

text \<open>
  \<^verbatim>\<open>list.index(x)\<close>: the position of the first element equal to \<open>x\<close>; Python raises
  \<^verbatim>\<open>ValueError\<close> when there is none, here the result is \<open>None\<close>.
\<close>

fun list_index :: "'a list \<Rightarrow> 'a \<Rightarrow> nat option" where
  "list_index [] x = None"
| "list_index (y # ys) x = (if y = x then Some 0 else map_option Suc (list_index ys x))"

text \<open>
  \<^verbatim>\<open>del args[i:j]\<close>: the slice is removed; as every Python slice it is clipped to the list.
\<close>

definition del_slice :: "'a list \<Rightarrow> nat \<Rightarrow> nat \<Rightarrow> 'a list" where
  "del_slice xs i j = (if i < j then take i xs @ drop j xs else xs)"

text \<open>
  The extraction functions mutate the caller's list. The model passes the list in and
  returns, beside the outcome (an exception or the returned value), the list as the call
  leaves it: at a \<^verbatim>\<open>raise\<close> that is the list with the mutations made so far.
  \<^verbatim>\<open>args.count(name)\<close> is \<open>count_list\<close>, \<^verbatim>\<open>args.remove(name)\<close> deletes the first
  occurrence (\<open>remove1\<close>). In \<open>extract_arg\<close> the \<open>None\<close> branch of \<open>list_index\<close> is the
  \<^verbatim>\<open>ValueError\<close> of \<^verbatim>\<open>args.index(name)\<close>, which the count before it excludes. The default
  \<^verbatim>\<open>required=False\<close> is the caller passing \<open>False\<close>.
\<close>

definition extract_flag :: "string list \<Rightarrow> string \<Rightarrow> (error + bool) \<times> string list" where
  "extract_flag args name =
     (let count = count_list args name in
      if count > 1 then (Inl (FlagMultiple name), args)
      else if count = 0 then (Inr False, args)
      else (Inr True, remove1 name args))"

definition extract_arg ::
  "string list \<Rightarrow> string \<Rightarrow> bool \<Rightarrow> (error + string option) \<times> string list" where
  "extract_arg args name required =
     (let count = count_list args name in
      if count = 0 then
        (if required then (Inl (ArgNotPassed name), args) else (Inr None, args))
      else if count > 1 then (Inl (ArgMultiple name), args)
      else
        (case list_index args name of
           None \<Rightarrow> (Inl (NotInList name), args)
         | Some argindex \<Rightarrow>
             if argindex + 1 \<ge> length args then (Inl (ArgNoValue name), args)
             else
               (let val = args ! (argindex + 1)
                in (Inr (Some val), del_slice args argindex (argindex + 2)))))"

section \<open>Strings\<close>

text \<open>
  The methods of \<^verbatim>\<open>str\<close> the module calls, as CPython defines them: occurrences are
  searched from the left and do not overlap. \<open>str_find\<close> is \<^verbatim>\<open>s.find(sub)\<close> with \<open>None\<close>
  for \<^verbatim>\<open>-1\<close>; \<open>str_contains s sub\<close> is \<^verbatim>\<open>sub in s\<close>.
\<close>

fun str_find :: "string \<Rightarrow> string \<Rightarrow> nat option" where
  "str_find [] sub = (if sub = [] then Some 0 else None)"
| "str_find (c # s) sub =
     (if prefix sub (c # s) then Some 0 else map_option Suc (str_find s sub))"

definition str_contains :: "string \<Rightarrow> string \<Rightarrow> bool" where
  "str_contains s sub = (str_find s sub \<noteq> None)"

text \<open>
  \<^verbatim>\<open>s.count(sub)\<close>: the number of non-overlapping occurrences; the empty string is counted
  once before every character and once at the end.
\<close>

function str_count :: "string \<Rightarrow> string \<Rightarrow> nat" where
  "str_count s sub =
     (if sub = [] then length s + 1
      else case str_find s sub of
             None \<Rightarrow> 0
           | Some i \<Rightarrow> Suc (str_count (drop (i + length sub) s) sub))"
  by pat_completeness auto
termination
  by (relation "measure (\<lambda>(s, sub). length s)") (auto split: if_splits elim: str_find.elims)

declare str_count.simps [simp del]

text \<open>
  \<^verbatim>\<open>s.split(sep)\<close> raises \<^verbatim>\<open>ValueError\<close> on an empty separator; otherwise it cuts \<open>s\<close> at
  every occurrence of \<open>sep\<close> (\<open>split_pieces\<close>, which is only called with a separator that
  is not empty).
\<close>

function split_pieces :: "string \<Rightarrow> string \<Rightarrow> string list" where
  "split_pieces s sep =
     (if sep = [] then [s]
      else case str_find s sep of
             None \<Rightarrow> [s]
           | Some i \<Rightarrow> take i s # split_pieces (drop (i + length sep) s) sep)"
  by pat_completeness auto
termination
  by (relation "measure (\<lambda>(s, sep). length s)") (auto split: if_splits elim: str_find.elims)

declare split_pieces.simps [simp del]

definition str_split :: "string \<Rightarrow> string \<Rightarrow> error + string list" where
  "str_split s sep = (if sep = [] then Inl EmptySeparator else Inr (split_pieces s sep))"

text \<open>
  \<^verbatim>\<open>s.replace(old, new)\<close>: every occurrence of \<open>old\<close> becomes \<open>new\<close>; an empty \<open>old\<close> puts
  \<open>new\<close> before every character and at the end.
\<close>

function str_replace :: "string \<Rightarrow> string \<Rightarrow> string \<Rightarrow> string" where
  "str_replace s old new =
     (if old = [] then new @ concat (map (\<lambda>c. c # new) s)
      else case str_find s old of
             None \<Rightarrow> s
           | Some i \<Rightarrow> take i s @ new @ str_replace (drop (i + length old) s) old new)"
  by pat_completeness auto
termination
  by (relation "measure (\<lambda>(s, old, new). length s)")
     (auto split: if_splits elim: str_find.elims)

declare str_replace.simps [simp del]

text \<open>\<^verbatim>\<open>sep.join(pieces)\<close>, used to say what \<open>split_pieces\<close> and \<open>str_replace\<close> compute.\<close>

fun str_join :: "string \<Rightarrow> string list \<Rightarrow> string" where
  "str_join sep [] = []"
| "str_join sep [p] = p"
| "str_join sep (p # q # ps) = p @ sep @ str_join sep (q # ps)"

section \<open>Text replacement\<close>

text \<open>
  \<open>replace_section\<close> and \<open>replace_exact\<close>, branch by branch as the source has them. The
  message of the second \<^verbatim>\<open>Expected one marker\<close> error counts \<open>end_marker\<close> in the whole
  text, as the source does. The defaults (\<^verbatim>\<open>replace_text=''\<close>, \<^verbatim>\<open>keep_markers=False\<close>,
  \<^verbatim>\<open>error_if_missing=True\<close>, \<^verbatim>\<open>count=1\<close>, \<^verbatim>\<open>label=None\<close>) are the caller passing these
  values.
\<close>

definition replace_section ::
  "string \<Rightarrow> string \<Rightarrow> string \<Rightarrow> string \<Rightarrow> bool \<Rightarrow> bool \<Rightarrow> error + string" where
  "replace_section text begin_marker end_marker replace_text keep_markers error_if_missing =
     (if \<not> str_contains text begin_marker then
        (if error_if_missing then Inl (MarkerNotFound begin_marker) else Inr text)
      else
        case str_split text begin_marker of
          Inl e \<Rightarrow> Inl e
        | Inr splits \<Rightarrow>
            if length splits \<noteq> 2 then
              Inl (ExpectedOneMarker begin_marker (str_count text begin_marker))
            else
              (let before_begin = splits ! 0; after_begin = splits ! 1 in
               case str_split after_begin end_marker of
                 Inl e \<Rightarrow> Inl e
               | Inr splits' \<Rightarrow>
                   if length splits' \<noteq> 2 then
                     Inl (ExpectedOneMarker end_marker (str_count text end_marker))
                   else
                     (let after_end = splits' ! 1;
                          replace_text' =
                            (if keep_markers then begin_marker @ replace_text @ end_marker
                             else replace_text)
                      in Inr (before_begin @ replace_text' @ after_end))))"

definition replace_exact ::
  "string \<Rightarrow> string \<Rightarrow> string \<Rightarrow> int \<Rightarrow> string option \<Rightarrow> error + string" where
  "replace_exact opstr old new count label =
     (let found = str_count opstr old in
      if int found \<noteq> count then Inl (ExpectedOccurrences count label found old)
      else Inr (str_replace opstr old new))"

section \<open>Hashing\<close>

text \<open>
  Python values whose type the hashing functions test at run time: the
  \<^verbatim>\<open>filenames\<close> of \<^verbatim>\<open>get_files_hash\<close> and the \<^verbatim>\<open>value\<close> of \<^verbatim>\<open>get_string_hash\<close>.
  A path (\<^verbatim>\<open>str | Path\<close>) is the string that names the file.
\<close>

datatype pyobj = PyList "string list" | PyTuple "string list" | PyStr string | PyNone

fun type_of :: "pyobj \<Rightarrow> pytype" where
  "type_of (PyList xs) = ListType"
| "type_of (PyTuple xs) = TupleType"
| "type_of (PyStr s) = StrType"
| "type_of PyNone = NoneType"

text \<open>
  \<^verbatim>\<open>str.encode()\<close>: UTF-8. A \<open>char\<close> is a code point below 256, so it is encoded in one
  byte (below 128) or two.
\<close>

type_synonym byte = "8 word"

definition utf8_char :: "char \<Rightarrow> byte list" where
  "utf8_char c =
     (let n = (of_char c :: nat) in
      if n < 128 then [of_nat n] else [of_nat (192 + n div 64), of_nat (128 + n mod 64)])"

definition encode :: "string \<Rightarrow> byte list" where
  "encode s = concat (map utf8_char s)"

text \<open>
  \<^verbatim>\<open>hashlib\<close> is not part of the repository: the digest functions are a parameter
  \<open>hashlib :: hashtype \<Rightarrow> byte list \<Rightarrow> byte list\<close>, from the bytes fed to the digest. A hash
  object holds the algorithm and the bytes fed so far; \<^verbatim>\<open>update\<close> appends.
\<close>

datatype hashtype = MD5 | SHA256

record hashobj =
  algorithm :: hashtype
  fed :: "byte list"

definition hash_new :: "hashtype \<Rightarrow> hashobj" where
  "hash_new hashtype = \<lparr>algorithm = hashtype, fed = []\<rparr>"

definition hash_update :: "hashobj \<Rightarrow> byte list \<Rightarrow> hashobj" where
  "hash_update hashobj data = hashobj\<lparr>fed := fed hashobj @ data\<rparr>"

definition hash_digest :: "(hashtype \<Rightarrow> byte list \<Rightarrow> byte list) \<Rightarrow> hashobj \<Rightarrow> byte list" where
  "hash_digest hashlib hashobj = hashlib (algorithm hashobj) (fed hashobj)"

text \<open>Digits: \<^verbatim>\<open>hexdigest()\<close> writes two lower-case hex digits a byte, \<^verbatim>\<open>str(n)\<close> decimal.\<close>

definition digit_char :: "nat \<Rightarrow> char" where
  "digit_char d = char_of (if d < 10 then 48 + d else 87 + d)"

definition hex_byte :: "byte \<Rightarrow> string" where
  "hex_byte b = [digit_char (unat b div 16), digit_char (unat b mod 16)]"

definition hash_hexdigest :: "(hashtype \<Rightarrow> byte list \<Rightarrow> byte list) \<Rightarrow> hashobj \<Rightarrow> string" where
  "hash_hexdigest hashlib hashobj = concat (map hex_byte (hash_digest hashlib hashobj))"

fun str_of_nat :: "nat \<Rightarrow> string" where
  "str_of_nat n =
     (if n < 10 then [digit_char n] else str_of_nat (n div 10) @ [digit_char (n mod 10)])"

declare str_of_nat.simps [simp del]

text \<open>\<^verbatim>\<open>int.from_bytes(digest, byteorder='big')\<close>.\<close>

definition int_from_bytes_big :: "byte list \<Rightarrow> nat" where
  "int_from_bytes_big bs = foldl (\<lambda>acc b. acc * 256 + unat b) 0 bs"

text \<open>
  The file system is a map from a path to the bytes of the file; \<^verbatim>\<open>open\<close> raises on a path
  outside its domain. \<open>read_chunks\<close> is the loop over \<^verbatim>\<open>infile.read(2**20)\<close>: the second
  argument is what is left to read.
\<close>

function read_chunks :: "hashobj \<Rightarrow> byte list \<Rightarrow> hashobj" where
  "read_chunks hashobj content =
     (let data = take (2 ^ 20) content in
      if data = [] then hashobj
      else read_chunks (hash_update hashobj data) (drop (2 ^ 20) content))"
  by pat_completeness auto
termination
  by (relation "measure (\<lambda>(hashobj, content). length content)") auto

declare read_chunks.simps [simp del]

fun hash_files :: "(string \<rightharpoonup> byte list) \<Rightarrow> hashobj \<Rightarrow> string list \<Rightarrow> error + hashobj" where
  "hash_files fs hashobj [] = Inr hashobj"
| "hash_files fs hashobj (fname # fnames) =
     (case fs fname of
        None \<Rightarrow> Inl (OpenFailed fname)
      | Some content \<Rightarrow> hash_files fs (read_chunks hashobj content) fnames)"

definition get_files_hash ::
  "(hashtype \<Rightarrow> byte list \<Rightarrow> byte list) \<Rightarrow> (string \<rightharpoonup> byte list) \<Rightarrow>
     pyobj \<Rightarrow> string \<Rightarrow> bool \<Rightarrow> hashtype \<Rightarrow> error + string" where
  "get_files_hash hashlib fs filenames extrahash int_only hashtype =
     (case filenames of
        PyList fnames \<Rightarrow>
          (case hash_files fs (hash_new hashtype) fnames of
             Inl e \<Rightarrow> Inl e
           | Inr hashobj \<Rightarrow>
               (let hashobj' = hash_update hashobj (encode extrahash) in
                if int_only then Inr (str_of_nat (int_from_bytes_big (hash_digest hashlib hashobj')))
                else Inr (hash_hexdigest hashlib hashobj')))
      | _ \<Rightarrow> Inl (ExpectedList (type_of filenames)))"

definition get_string_hash ::
  "(hashtype \<Rightarrow> byte list \<Rightarrow> byte list) \<Rightarrow> pyobj \<Rightarrow> bool \<Rightarrow> hashtype \<Rightarrow> error + string" where
  "get_string_hash hashlib val int_only hashtype =
     (case val of
        PyStr s \<Rightarrow>
          (let hashobj = hash_update (hash_new hashtype) (encode s) in
           if int_only then Inr (str_of_nat (int_from_bytes_big (hash_digest hashlib hashobj)))
           else Inr (hash_hexdigest hashlib hashobj))
      | _ \<Rightarrow> Inl ExpectedStr)"

text \<open>
  What the properties of the hashes are stated with. \<open>is_sequence\<close>: the value is an
  ordered sequence (\<^verbatim>\<open>collections.abc.Sequence\<close>: a list, a tuple, a string).
  \<open>parse_int base s\<close>: the number a non-empty string of digits denotes in the base, as
  \<^verbatim>\<open>int(s, base)\<close> reads it; \<open>None\<close> where \<^verbatim>\<open>int\<close> raises.
\<close>

fun is_sequence :: "pyobj \<Rightarrow> bool" where
  "is_sequence (PyList xs) = True"
| "is_sequence (PyTuple xs) = True"
| "is_sequence (PyStr s) = True"
| "is_sequence PyNone = False"

definition digit_value :: "char \<Rightarrow> nat option" where
  "digit_value c =
     (let n = (of_char c :: nat) in
      if 48 \<le> n \<and> n \<le> 57 then Some (n - 48)
      else if 97 \<le> n \<and> n \<le> 122 then Some (n - 87)
      else if 65 \<le> n \<and> n \<le> 90 then Some (n - 55)
      else None)"

fun parse_digits :: "nat \<Rightarrow> nat \<Rightarrow> string \<Rightarrow> nat option" where
  "parse_digits base acc [] = Some acc"
| "parse_digits base acc (c # cs) =
     (case digit_value c of
        None \<Rightarrow> None
      | Some d \<Rightarrow> if d < base then parse_digits base (acc * base + d) cs else None)"

definition parse_int :: "nat \<Rightarrow> string \<Rightarrow> nat option" where
  "parse_int base s = (if s = [] then None else parse_digits base 0 s)"

section \<open>Properties of the argument functions\<close>

lemma list_index_append:
  "x \<notin> set pre \<Longrightarrow> list_index (pre @ x # rest) x = Some (length pre)"
  by (induction pre) auto

lemma count_list_one_split:
  "count_list (pre @ x # rest) x = 1 \<Longrightarrow> x \<notin> set pre \<and> x \<notin> set rest"
  by (auto simp: count_list_0_iff)

lemma del_slice_pair: "del_slice (pre @ a # b # post) (length pre) (length pre + 2) = pre @ post"
  by (simp add: del_slice_def)

lemma nth_after: "(pre @ a # b # post) ! (length pre + 1) = b"
  by (simp add: nth_append)

lemma extract_arg_found:
  assumes "name \<notin> set pre" and "name \<notin> set post" and "v \<noteq> name"
  shows "extract_arg (pre @ name # v # post) name required = (Inr (Some v), pre @ post)"
proof -
  let ?args = "pre @ name # v # post"
  have c: "count_list ?args name = 1"
    using assms by (simp add: count_list_0_iff)
  have i: "list_index ?args name = Some (length pre)"
    using assms(1) by (rule list_index_append)
  have l: "\<not> length ?args \<le> length pre + 1" by simp
  show ?thesis
    unfolding extract_arg_def Let_def c i option.case nth_after del_slice_pair
    using l by simp
qed

lemma extract_arg_last:
  assumes "name \<notin> set pre"
  shows "extract_arg (pre @ [name]) name required = (Inl (ArgNoValue name), pre @ [name])"
proof -
  have c: "count_list (pre @ [name]) name = 1"
    using assms by (simp add: count_list_0_iff)
  have i: "list_index (pre @ [name]) name = Some (length pre)"
    using assms by (rule list_index_append)
  show ?thesis
    unfolding extract_arg_def Let_def c i option.case by simp
qed

text \<open>
  Claim C7, the contract of \<open>extract_arg\<close>. A name that appears more than once raises; an
  absent name raises when \<open>required\<close> and otherwise gives \<open>None\<close> with the list unchanged;
  a name that appears once, as the last element, raises; a name that appears once with an
  element \<open>v\<close> after it gives \<open>v\<close>, and the list loses exactly the name and \<open>v\<close>.
\<close>

theorem extract_arg_contract:
  "(1 < count_list args name \<longrightarrow>
      extract_arg args name required = (Inl (ArgMultiple name), args))
   \<and> (name \<notin> set args \<longrightarrow> extract_arg args name True = (Inl (ArgNotPassed name), args))
   \<and> (name \<notin> set args \<longrightarrow> extract_arg args name False = (Inr None, args))
   \<and> (count_list args name = 1 \<longrightarrow> args = pre @ [name] \<longrightarrow>
      extract_arg args name required = (Inl (ArgNoValue name), args))
   \<and> (count_list args name = 1 \<longrightarrow> args = pre @ name # v # post \<longrightarrow>
      extract_arg args name required = (Inr (Some v), pre @ post))"
proof (intro conjI impI)
  assume "1 < count_list args name"
  then show "extract_arg args name required = (Inl (ArgMultiple name), args)"
    by (simp add: extract_arg_def Let_def)
next
  assume "name \<notin> set args"
  then show "extract_arg args name True = (Inl (ArgNotPassed name), args)"
    by (simp add: extract_arg_def Let_def count_list_0_iff)
next
  assume "name \<notin> set args"
  then show "extract_arg args name False = (Inr None, args)"
    by (simp add: extract_arg_def Let_def count_list_0_iff)
next
  assume c: "count_list args name = 1" and a: "args = pre @ [name]"
  from c a have "name \<notin> set pre" using count_list_one_split [of pre name "[]"] by simp
  then show "extract_arg args name required = (Inl (ArgNoValue name), args)"
    unfolding a by (rule extract_arg_last)
next
  assume c: "count_list args name = 1" and a: "args = pre @ name # v # post"
  from c a have "name \<notin> set pre \<and> name \<notin> set (v # post)"
    using count_list_one_split [of pre name "v # post"] by simp
  then show "extract_arg args name required = (Inr (Some v), pre @ post)"
    unfolding a by (intro extract_arg_found) auto
qed

theorem extract_arg_contract_witness:
  "extract_arg [''-a'', ''x'', ''-a''] ''-a'' False = (Inl (ArgMultiple ''-a''), [''-a'', ''x'', ''-a''])
   \<and> extract_arg [''in'', ''out''] ''-a'' True = (Inl (ArgNotPassed ''-a''), [''in'', ''out''])
   \<and> extract_arg [''in'', ''out''] ''-a'' False = (Inr None, [''in'', ''out''])
   \<and> extract_arg [''in'', ''-a''] ''-a'' True = (Inl (ArgNoValue ''-a''), [''in'', ''-a''])
   \<and> extract_arg [''in'', ''-a'', ''x'', ''out''] ''-a'' True = (Inr (Some ''x''), [''in'', ''out''])"
  using extract_arg_contract [of "[''-a'', ''x'', ''-a'']" "''-a''" False "[]" "[]" "[]"]
    extract_arg_contract [of "[''in'', ''out'']" "''-a''" True]
    extract_arg_contract [of "[''in'', ''-a'']" "''-a''" True "[''in'']"]
    extract_arg_contract [of "[''in'', ''-a'', ''x'', ''out'']" "''-a''" True "[''in'']" "''x''" "[''out'']"]
  by simp

text \<open>
  Claim C10, no partial removal: whenever \<open>extract_flag\<close> or \<open>extract_arg\<close> raises, the
  list it leaves is the list it was given.
\<close>

theorem extraction_atomic:
  "(isl (fst (extract_flag args name)) \<longrightarrow> snd (extract_flag args name) = args)
   \<and> (isl (fst (extract_arg args name required)) \<longrightarrow>
        snd (extract_arg args name required) = args)"
  by (auto simp: extract_flag_def extract_arg_def Let_def split: option.splits if_splits)

theorem extraction_atomic_witness:
  "snd (extract_flag [''-q'', ''-q''] ''-q'') = [''-q'', ''-q'']
   \<and> snd (extract_arg [''-o'', ''a'', ''-o''] ''-o'' False) = [''-o'', ''a'', ''-o'']
   \<and> snd (extract_arg [''in''] ''-o'' True) = [''in'']
   \<and> snd (extract_arg [''in'', ''-o''] ''-o'' False) = [''in'', ''-o'']"
proof -
  have f: "isl (fst (extract_flag [''-q'', ''-q''] ''-q''))"
    by (simp add: extract_flag_def)
  have a: "isl (fst (extract_arg [''-o'', ''a'', ''-o''] ''-o'' False))"
    by (simp add: extract_arg_def)
  have b: "isl (fst (extract_arg [''in''] ''-o'' True))"
    by (simp add: extract_arg_def)
  have c: "isl (fst (extract_arg [''in'', ''-o''] ''-o'' False))"
    by (simp add: extract_arg_def)
  from f a b c extraction_atomic [of "[''-q'', ''-q'']" "''-q''"]
    extraction_atomic [of "[''-o'', ''a'', ''-o'']" "''-o''" False]
    extraction_atomic [of "[''in'']" "''-o''" True]
    extraction_atomic [of "[''in'', ''-o'']" "''-o''" False]
  show ?thesis by blast
qed

text \<open>
  Claim C1 as stated, for every list, fails: when the list already holds \<open>name\<close>, the name
  appears twice after the insertion and \<open>extract_arg\<close> raises.
\<close>

theorem extract_arg_round_trip_counterexample:
  "extract_arg (take 0 [''-o''] @ [''-o'', ''out''] @ drop 0 [''-o'']) ''-o'' False
     = (Inl (ArgMultiple ''-o''), [''-o'', ''out'', ''-o''])"
  by (simp add: extract_arg_def)

text \<open>
  Claim C1, amended: for a list that does not hold \<open>name\<close> and a value other than \<open>name\<close>,
  putting \<open>[name, val]\<close> in at any position \<open>i\<close> and extracting \<open>name\<close> gives \<open>val\<close> and
  the list as it was.
\<close>

theorem extract_arg_round_trip:
  "name \<notin> set xs \<Longrightarrow> val \<noteq> name \<Longrightarrow>
     extract_arg (take i xs @ [name, val] @ drop i xs) name required = (Inr (Some val), xs)"
proof -
  assume n: "name \<notin> set xs" and v: "val \<noteq> name"
  have "name \<notin> set (take i xs)" and "name \<notin> set (drop i xs)"
    using n by (auto dest: in_set_takeD in_set_dropD)
  then have "extract_arg (take i xs @ name # val # drop i xs) name required
      = (Inr (Some val), take i xs @ drop i xs)"
    using v by (rule extract_arg_found)
  then show ?thesis by simp
qed

theorem extract_arg_round_trip_witness:
  "extract_arg [''in'', ''-o'', ''out'', ''-v''] ''-o'' True = (Inr (Some ''out''), [''in'', ''-v''])"
  using extract_arg_round_trip [of "''-o''" "[''in'', ''-v'']" "''out''" 1 True]
  by simp

section \<open>Properties of the string methods\<close>

lemma str_find_Some:
  "str_find s sub = Some i \<Longrightarrow> s = take i s @ sub @ drop (i + length sub) s"
proof (induction s arbitrary: i)
  case Nil
  then show ?case by (simp split: if_splits)
next
  case (Cons c s)
  show ?case
  proof (cases "prefix sub (c # s)")
    case True
    with Cons.prems have "i = 0" by simp
    with True show ?thesis by (auto simp: prefix_def)
  next
    case False
    with Cons.prems obtain j where j: "str_find s sub = Some j" "i = Suc j" by auto
    from Cons.IH [OF j(1)] j(2) show ?thesis by simp
  qed
qed

lemma str_find_bound: "str_find s sub = Some i \<Longrightarrow> i + length sub \<le> length s"
proof (induction s arbitrary: i)
  case Nil
  then show ?case by (simp split: if_splits)
next
  case (Cons c s)
  show ?case
  proof (cases "prefix sub (c # s)")
    case True
    with Cons.prems have "i = 0" by simp
    with prefix_length_le [OF True] show ?thesis by simp
  next
    case False
    with Cons.prems obtain j where j: "str_find s sub = Some j" "i = Suc j" by auto
    from Cons.IH [OF j(1)] j(2) show ?thesis by simp
  qed
qed

lemma str_find_empty: "str_find s [] = Some 0"
  by (cases s) simp_all

lemma length_split_pieces:
  "sep \<noteq> [] \<Longrightarrow> length (split_pieces s sep) = Suc (str_count s sep)"
proof (induction s sep rule: split_pieces.induct)
  case (1 s sep)
  show ?case
  proof (cases "str_find s sep")
    case None
    with "1.prems" show ?thesis
      by (simp add: split_pieces.simps [of s sep] str_count.simps [of s sep])
  next
    case (Some i)
    with "1.IH" [OF "1.prems" Some "1.prems"] "1.prems" show ?thesis
      by (simp add: split_pieces.simps [of s sep] str_count.simps [of s sep])
  qed
qed

lemma split_pieces_not_Nil: "split_pieces s sep \<noteq> []"
  by (simp add: split_pieces.simps [of s sep] split: option.splits)

lemma str_join_Cons: "ps \<noteq> [] \<Longrightarrow> str_join sep (p # ps) = p @ sep @ str_join sep ps"
  by (cases ps) simp_all

lemma join_split_pieces: "sep \<noteq> [] \<Longrightarrow> str_join sep (split_pieces s sep) = s"
proof (induction s sep rule: split_pieces.induct)
  case (1 s sep)
  show ?case
  proof (cases "str_find s sep")
    case None
    with "1.prems" show ?thesis
      by (simp add: split_pieces.simps [of s sep])
  next
    case (Some i)
    have "str_join sep (split_pieces s sep)
        = take i s @ sep @ str_join sep (split_pieces (drop (i + length sep) s) sep)"
      using Some "1.prems"
      by (simp add: split_pieces.simps [of s sep] str_join_Cons split_pieces_not_Nil)
    also have "\<dots> = take i s @ sep @ drop (i + length sep) s"
      using "1.IH" [OF "1.prems" Some "1.prems"] by simp
    also have "\<dots> = s" using str_find_Some [OF Some] by simp
    finally show ?thesis .
  qed
qed

lemma replace_join_split:
  "old \<noteq> [] \<Longrightarrow> str_replace s old new = str_join new (split_pieces s old)"
proof (induction s old rule: split_pieces.induct)
  case (1 s old)
  show ?case
  proof (cases "str_find s old")
    case None
    with "1.prems" show ?thesis
      by (simp add: split_pieces.simps [of s old] str_replace.simps [of s old new])
  next
    case (Some i)
    with "1.IH" [OF "1.prems" Some "1.prems"] "1.prems" show ?thesis
      by (simp add: split_pieces.simps [of s old] str_replace.simps [of s old new]
          str_join_Cons split_pieces_not_Nil)
  qed
qed

lemma join_chars:
  "str_join new (p # map (\<lambda>c. [c]) s @ [[]]) = p @ new @ concat (map (\<lambda>c. c # new) s)"
  by (induction s arbitrary: p) simp_all

lemma replace_pieces:
  "\<exists>ps. length ps = Suc (str_count s old) \<and> str_join old ps = s
      \<and> str_join new ps = str_replace s old new"
proof (cases "old = []")
  case True
  let ?ps = "[] # map (\<lambda>c. [c]) s @ [[]]"
  have "length ?ps = Suc (str_count s old)"
    using True by (simp add: str_count.simps [of s "[]"])
  moreover have "str_join old ?ps = s"
    unfolding join_chars using True by simp
  moreover have "str_join new ?ps = str_replace s old new"
    unfolding join_chars using True by (simp add: str_replace.simps [of s "[]" new])
  ultimately show ?thesis by blast
next
  case False
  then show ?thesis
    using length_split_pieces join_split_pieces replace_join_split by metis
qed

lemma str_count_pos: "sub \<noteq> [] \<Longrightarrow> (0 < str_count s sub) = str_contains s sub"
  by (simp add: str_count.simps [of s sub] str_contains_def split: option.splits)

lemma str_contains_count: "str_contains s sub = (0 < str_count s sub)"
proof (cases "sub = []")
  case True
  then show ?thesis
    by (simp add: str_contains_def str_find_empty str_count.simps [of s "[]"])
next
  case False
  then show ?thesis by (simp add: str_count_pos)
qed

lemma split_pieces_once:
  assumes "sep \<noteq> []" and "str_find s sep = Some i" and "str_count s sep = 1"
  shows "split_pieces s sep = [take i s, drop (i + length sep) s]"
proof -
  let ?r = "drop (i + length sep) s"
  from assms have "str_count ?r sep = 0"
    by (simp add: str_count.simps [of s sep])
  with assms(1) have "str_find ?r sep = None"
    using str_count_pos [of sep ?r] by (simp add: str_contains_def)
  then have "split_pieces ?r sep = [?r]"
    by (simp add: split_pieces.simps [of ?r sep])
  with assms show ?thesis
    by (simp add: split_pieces.simps [of s sep])
qed

section \<open>Properties of \<open>replace_section\<close>\<close>

lemma replace_section_absent:
  "str_count text b = 0 \<Longrightarrow>
     replace_section text b e r k eim = (if eim then Inl (MarkerNotFound b) else Inr text)"
  by (simp add: replace_section_def str_contains_count)

lemma replace_section_empty_begin: "replace_section text [] e r k eim = Inl EmptySeparator"
  by (simp add: replace_section_def str_contains_def str_find_empty str_split_def)

lemma replace_section_many:
  assumes "b \<noteq> []" and "1 < str_count text b"
  shows "replace_section text b e r k eim = Inl (ExpectedOneMarker b (str_count text b))"
proof -
  have c: "str_contains text b" using assms(2) by (simp add: str_contains_count)
  have l: "length (split_pieces text b) \<noteq> 2"
    using assms by (simp add: length_split_pieces)
  show ?thesis
    using assms(1) c l by (simp add: replace_section_def str_split_def)
qed

lemma replace_section_one:
  assumes "b \<noteq> []" and "str_count text b = 1" and "str_find text b = Some i"
  shows "replace_section text b e r k eim =
    (case str_split (drop (i + length b) text) e of
       Inl err \<Rightarrow> Inl err
     | Inr splits' \<Rightarrow>
         if length splits' \<noteq> 2 then Inl (ExpectedOneMarker e (str_count text e))
         else Inr (take i text @ (if k then b @ r @ e else r) @ splits' ! 1))"
proof -
  have c: "str_contains text b" using assms(2) by (simp add: str_contains_count)
  have s: "str_split text b = Inr [take i text, drop (i + length b) text]"
    using assms by (simp add: str_split_def split_pieces_once)
  show ?thesis
    unfolding replace_section_def s using c
    by (simp add: Let_def split: sum.splits)
qed

lemma replace_section_end_fails:
  assumes "str_count text b = 1" and "str_find text b = Some i"
    and "str_count (drop (i + length b) text) e \<noteq> 1"
  shows "isl (replace_section text b e r k eim)"
proof (cases "b = []")
  case True
  then show ?thesis by (simp add: replace_section_empty_begin)
next
  case b: False
  show ?thesis
  proof (cases "e = []")
    case True
    then show ?thesis
      by (simp add: replace_section_one [OF b assms(1,2)] str_split_def)
  next
    case False
    then have "length (split_pieces (drop (i + length b) text) e) \<noteq> 2"
      using assms(3) by (simp add: length_split_pieces)
    with False show ?thesis
      by (simp add: replace_section_one [OF b assms(1,2)] str_split_def)
  qed
qed

lemma replace_section_found:
  assumes "b \<noteq> []" and "e \<noteq> []"
    and "str_count text b = 1" and "str_find text b = Some i"
    and "str_count (drop (i + length b) text) e = 1"
    and "str_find (drop (i + length b) text) e = Some j"
  shows "replace_section text b e r k eim =
    Inr (take i text @ (if k then b @ r @ e else r)
         @ drop (j + length e) (drop (i + length b) text))"
  using assms(2)
  by (simp add: replace_section_one [OF assms(1,3,4)] str_split_def
      split_pieces_once [OF assms(2,6,5)])

text \<open>
  Claim C4 as stated fails for an empty marker: the empty string occurs exactly once in
  the empty text (\<^verbatim>\<open>''.count('')\<close> is 1), and \<^verbatim>\<open>split\<close> refuses it as a separator. So
  with an empty \<open>begin_marker\<close> in an empty text, and with an empty \<open>end_marker\<close> when
  nothing follows \<open>begin_marker\<close>, the call raises.
\<close>

theorem replace_section_replaces_counterexample:
  "str_count '''' '''' = 1 \<and> str_find '''' '''' = Some 0
   \<and> str_count (drop (0 + length '''') '''') ''[END]'' = 0
   \<and> replace_section '''' '''' ''[END]'' ''X'' False True = Inl EmptySeparator
   \<and> str_count ''[START]'' ''[START]'' = 1 \<and> str_find ''[START]'' ''[START]'' = Some 0
   \<and> str_count (drop (0 + length ''[START]'') ''[START]'') '''' = 1
   \<and> str_find (drop (0 + length ''[START]'') ''[START]'') '''' = Some 0
   \<and> replace_section ''[START]'' ''[START]'' '''' ''X'' False True = Inl EmptySeparator"
  by (intro conjI; code_simp)

text \<open>
  Claim C4, amended: the markers are not empty. When \<open>begin_marker\<close> occurs exactly once
  in \<open>text\<close>, at \<open>i\<close>, and \<open>end_marker\<close> occurs exactly once in \<open>after_begin\<close>, the text
  after it, at \<open>j\<close>, then \<open>text\<close> is what precedes \<open>begin_marker\<close>, \<open>begin_marker\<close>, the
  middle, \<open>end_marker\<close> and what follows it; the result is what precedes, then
  \<open>replace_text\<close> (between the two markers when \<open>keep_markers\<close>), then what follows.
  On \<^verbatim>\<open>"[START]middle[END]"\<close> the result is \<^verbatim>\<open>"X"\<close>, and \<^verbatim>\<open>"[START]X[END]"\<close> with
  \<open>keep_markers\<close>.
\<close>

theorem replace_section_replaces:
  "(begin_marker \<noteq> [] \<longrightarrow> end_marker \<noteq> [] \<longrightarrow>
      str_count text begin_marker = 1 \<longrightarrow> str_find text begin_marker = Some i \<longrightarrow>
      after_begin = drop (i + length begin_marker) text \<longrightarrow>
      str_count after_begin end_marker = 1 \<longrightarrow> str_find after_begin end_marker = Some j \<longrightarrow>
      text = take i text @ begin_marker @ take j after_begin @ end_marker
               @ drop (j + length end_marker) after_begin
      \<and> replace_section text begin_marker end_marker replace_text keep_markers error_if_missing
          = Inr (take i text
                 @ (if keep_markers then begin_marker @ replace_text @ end_marker
                    else replace_text)
                 @ drop (j + length end_marker) after_begin))
   \<and> replace_section ''[START]middle[END]'' ''[START]'' ''[END]'' ''X'' False error_if_missing
       = Inr ''X''
   \<and> replace_section ''[START]middle[END]'' ''[START]'' ''[END]'' ''X'' True error_if_missing
       = Inr ''[START]X[END]''"
proof (intro conjI impI)
  assume b: "begin_marker \<noteq> []" and e: "end_marker \<noteq> []"
    and cb: "str_count text begin_marker = 1" and fb: "str_find text begin_marker = Some i"
    and a: "after_begin = drop (i + length begin_marker) text"
    and ce: "str_count after_begin end_marker = 1"
    and fe: "str_find after_begin end_marker = Some j"
  have "text = take i text @ begin_marker @ after_begin"
    unfolding a using fb by (rule str_find_Some)
  moreover have "after_begin = take j after_begin @ end_marker
      @ drop (j + length end_marker) after_begin"
    using fe by (rule str_find_Some)
  ultimately show "text = take i text @ begin_marker @ take j after_begin @ end_marker
      @ drop (j + length end_marker) after_begin"
    by simp
  show "replace_section text begin_marker end_marker replace_text keep_markers error_if_missing
      = Inr (take i text
             @ (if keep_markers then begin_marker @ replace_text @ end_marker
                else replace_text)
             @ drop (j + length end_marker) after_begin)"
    using b e cb fb ce fe unfolding a by (rule replace_section_found)
next
  have cb: "str_count ''[START]middle[END]'' ''[START]'' = 1" by code_simp
  have fb: "str_find ''[START]middle[END]'' ''[START]'' = Some 0" by code_simp
  have ce: "str_count (drop (0 + length ''[START]'') ''[START]middle[END]'') ''[END]'' = 1"
    by code_simp
  have fe: "str_find (drop (0 + length ''[START]'') ''[START]middle[END]'') ''[END]'' = Some 6"
    by code_simp
  note found = replace_section_found [OF _ _ cb fb ce fe, of "''X''" _ error_if_missing]
  show "replace_section ''[START]middle[END]'' ''[START]'' ''[END]'' ''X'' False
      error_if_missing = Inr ''X''"
    using found [of False] by simp
  show "replace_section ''[START]middle[END]'' ''[START]'' ''[END]'' ''X'' True
      error_if_missing = Inr ''[START]X[END]''"
    using found [of True] by simp
qed

theorem replace_section_replaces_witness:
  "replace_section ''a<b>c</b>d'' ''<b>'' ''</b>'' ''-'' False True = Inr ''a-d''
   \<and> replace_section ''a<b>c</b>d'' ''<b>'' ''</b>'' ''-'' True True = Inr ''a<b>-</b>d''"
proof -
  have cb: "str_count ''a<b>c</b>d'' ''<b>'' = 1" by code_simp
  have fb: "str_find ''a<b>c</b>d'' ''<b>'' = Some 1" by code_simp
  have a: "''c</b>d'' = drop (1 + length ''<b>'') ''a<b>c</b>d''" by simp
  have ce: "str_count ''c</b>d'' ''</b>'' = 1" by code_simp
  have fe: "str_find ''c</b>d'' ''</b>'' = Some 1" by code_simp
  from cb fb a ce fe
    replace_section_replaces [of "''<b>''" "''</b>''" "''a<b>c</b>d''" 1 "''c</b>d''" 1 "''-''" False True]
    replace_section_replaces [of "''<b>''" "''</b>''" "''a<b>c</b>d''" 1 "''c</b>d''" 1 "''-''" True True]
  show ?thesis by simp
qed

text \<open>
  Claim C5, the failures of \<open>replace_section\<close>. With \<open>begin_marker\<close> absent it raises when
  \<open>error_if_missing\<close> and otherwise returns the text unchanged. It raises whenever
  \<open>begin_marker\<close> does not occur exactly once (the absent marker without
  \<open>error_if_missing\<close> apart, which returns the text), and whenever \<open>end_marker\<close> does not
  occur exactly once in the text after \<open>begin_marker\<close>.
\<close>

theorem replace_section_failures:
  "(str_count text begin_marker = 0 \<longrightarrow>
      replace_section text begin_marker end_marker replace_text keep_markers True
        = Inl (MarkerNotFound begin_marker))
   \<and> (str_count text begin_marker = 0 \<longrightarrow>
      replace_section text begin_marker end_marker replace_text keep_markers False = Inr text)
   \<and> (str_count text begin_marker \<noteq> 1 \<longrightarrow>
      (str_count text begin_marker = 0 \<longrightarrow> error_if_missing) \<longrightarrow>
      isl (replace_section text begin_marker end_marker replace_text keep_markers
             error_if_missing))
   \<and> (str_count text begin_marker = 1 \<longrightarrow> str_find text begin_marker = Some i \<longrightarrow>
      str_count (drop (i + length begin_marker) text) end_marker \<noteq> 1 \<longrightarrow>
      isl (replace_section text begin_marker end_marker replace_text keep_markers
             error_if_missing))"
proof (intro conjI impI)
  assume "str_count text begin_marker = 0"
  then show "replace_section text begin_marker end_marker replace_text keep_markers True
      = Inl (MarkerNotFound begin_marker)"
    by (simp add: replace_section_absent)
next
  assume "str_count text begin_marker = 0"
  then show "replace_section text begin_marker end_marker replace_text keep_markers False
      = Inr text"
    by (simp add: replace_section_absent)
next
  assume n: "str_count text begin_marker \<noteq> 1"
    and m: "str_count text begin_marker = 0 \<longrightarrow> error_if_missing"
  show "isl (replace_section text begin_marker end_marker replace_text keep_markers
      error_if_missing)"
  proof (cases "str_count text begin_marker = 0")
    case True
    with m show ?thesis by (simp add: replace_section_absent)
  next
    case False
    with n have g: "1 < str_count text begin_marker" by simp
    show ?thesis
    proof (cases "begin_marker = []")
      case True
      then show ?thesis by (simp add: replace_section_empty_begin)
    next
      case False
      from replace_section_many [OF False g] show ?thesis by simp
    qed
  qed
next
  assume "str_count text begin_marker = 1" and "str_find text begin_marker = Some i"
    and "str_count (drop (i + length begin_marker) text) end_marker \<noteq> 1"
  then show "isl (replace_section text begin_marker end_marker replace_text keep_markers
      error_if_missing)"
    by (rule replace_section_end_fails)
qed

theorem replace_section_failures_witness:
  "replace_section ''abc'' ''[S]'' ''[E]'' ''X'' False True = Inl (MarkerNotFound ''[S]'')
   \<and> replace_section ''abc'' ''[S]'' ''[E]'' ''X'' False False = Inr ''abc''
   \<and> isl (replace_section ''[S]x[S]y[E]'' ''[S]'' ''[E]'' ''X'' False False)
   \<and> isl (replace_section ''[S]x'' ''[S]'' ''[E]'' ''X'' False False)"
proof -
  have c0: "str_count ''abc'' ''[S]'' = 0" by code_simp
  have c2: "str_count ''[S]x[S]y[E]'' ''[S]'' = 2" by code_simp
  have c1: "str_count ''[S]x'' ''[S]'' = 1" by code_simp
  have f1: "str_find ''[S]x'' ''[S]'' = Some 0" by code_simp
  have e0: "str_count (drop (0 + length ''[S]'') ''[S]x'') ''[E]'' = 0" by code_simp
  from c0 replace_section_failures [of "''abc''" "''[S]''" "''[E]''" "''X''" False]
  have a: "replace_section ''abc'' ''[S]'' ''[E]'' ''X'' False True = Inl (MarkerNotFound ''[S]'')"
    and b: "replace_section ''abc'' ''[S]'' ''[E]'' ''X'' False False = Inr ''abc''"
    by blast+
  from c2 replace_section_failures [of "''[S]x[S]y[E]''" "''[S]''" "''[E]''" "''X''" False False]
  have c: "isl (replace_section ''[S]x[S]y[E]'' ''[S]'' ''[E]'' ''X'' False False)"
    by simp
  from c1 f1 e0 replace_section_failures [of "''[S]x''" "''[S]''" "''[E]''" "''X''" False False 0]
  have d: "isl (replace_section ''[S]x'' ''[S]'' ''[E]'' ''X'' False False)"
    by simp
  from a b c d show ?thesis by blast
qed

section \<open>Properties of \<open>replace_exact\<close>\<close>

lemma replace_exact_eq:
  "replace_exact opstr old new count label =
     (if int (str_count opstr old) \<noteq> count
      then Inl (ExpectedOccurrences count label (str_count opstr old) old)
      else Inr (str_replace opstr old new))"
  by (simp add: replace_exact_def Let_def)

text \<open>
  Claim C6, the contract of \<open>replace_exact\<close>: it raises exactly when the number of
  occurrences of \<open>old\<close> differs from \<open>count\<close>; when they agree the result is the text with
  every occurrence replaced: the text is pieces joined by \<open>old\<close>, one piece more than
  there are occurrences, and the result is the same pieces joined by \<open>new\<close>.
\<close>

theorem replace_exact_contract:
  "(isl (replace_exact opstr old new count label) \<longleftrightarrow> int (str_count opstr old) \<noteq> count)
   \<and> (int (str_count opstr old) \<noteq> count \<longrightarrow>
        replace_exact opstr old new count label
          = Inl (ExpectedOccurrences count label (str_count opstr old) old))
   \<and> (int (str_count opstr old) = count \<longrightarrow>
        replace_exact opstr old new count label = Inr (str_replace opstr old new))
   \<and> (\<exists>ps. length ps = Suc (str_count opstr old) \<and> str_join old ps = opstr
          \<and> str_join new ps = str_replace opstr old new)"
  using replace_pieces [of opstr old new] by (simp add: replace_exact_eq)

theorem replace_exact_contract_witness:
  "replace_exact ''a-b-c'' ''-'' ''+'' 2 None = Inr ''a+b+c''
   \<and> replace_exact ''a-b-c'' ''-'' ''+'' 1 None = Inl (ExpectedOccurrences 1 None 2 ''-'')"
proof -
  have c: "str_count ''a-b-c'' ''-'' = 2" by code_simp
  have r: "str_replace ''a-b-c'' ''-'' ''+'' = ''a+b+c''" by code_simp
  from c r replace_exact_contract [of "''a-b-c''" "''-''" "''+''" 2 None]
    replace_exact_contract [of "''a-b-c''" "''-''" "''+''" 1 None]
  show ?thesis by simp
qed

text \<open>
  Claim C2 as stated fails: \<^verbatim>\<open>replace_exact("aaa", "a", "b", count=3)\<close> does not raise,
  three occurrences are found and three are expected.
\<close>

theorem replace_exact_aaa_counterexample:
  "\<not> isl (replace_exact ''aaa'' ''a'' ''b'' 3 None)
   \<and> replace_exact ''aaa'' ''a'' ''b'' 3 None = Inr ''bbb''"
  by (intro conjI; code_simp)

text \<open>
  Claim C2, amended: \<^verbatim>\<open>replace_exact("aaa", "a", "b", count=3)\<close> returns \<^verbatim>\<open>"bbb"\<close>; with
  any other \<open>count\<close> it raises; and every call whose \<open>count\<close> is the number of occurrences
  succeeds and replaces them all.
\<close>

theorem replace_exact_aaa:
  "replace_exact ''aaa'' ''a'' ''b'' 3 label = Inr ''bbb''
   \<and> (count \<noteq> 3 \<longrightarrow>
        replace_exact ''aaa'' ''a'' ''b'' count label
          = Inl (ExpectedOccurrences count label 3 ''a''))
   \<and> replace_exact opstr old new (int (str_count opstr old)) label
       = Inr (str_replace opstr old new)"
proof -
  have c: "str_count ''aaa'' ''a'' = 3" by code_simp
  have r: "str_replace ''aaa'' ''a'' ''b'' = ''bbb''" by code_simp
  from c r show ?thesis by (simp add: replace_exact_eq)
qed

theorem replace_exact_aaa_witness:
  "replace_exact ''aaa'' ''a'' ''b'' 1 None = Inl (ExpectedOccurrences 1 None 3 ''a'')"
  using replace_exact_aaa [of None 1] by simp

section \<open>Properties of the hashes\<close>

lemma hash_update_Nil: "hash_update hashobj [] = hashobj"
  by (simp add: hash_update_def)

lemma hash_update_append:
  "hash_update (hash_update hashobj xs) ys = hash_update hashobj (xs @ ys)"
  by (simp add: hash_update_def)

lemma read_chunks_whole: "read_chunks hashobj content = hash_update hashobj content"
proof (induction hashobj content rule: read_chunks.induct)
  case (1 hashobj content)
  show ?case
  proof (cases "take (2 ^ 20) content = []")
    case True
    then have "content = []" by simp
    then show ?thesis
      by (simp add: read_chunks.simps [of hashobj "[]"] hash_update_Nil)
  next
    case False
    have "read_chunks hashobj content
        = read_chunks (hash_update hashobj (take (2 ^ 20) content)) (drop (2 ^ 20) content)"
      using False by (simp add: read_chunks.simps [of hashobj content] Let_def)
    also have "\<dots> = hash_update (hash_update hashobj (take (2 ^ 20) content))
        (drop (2 ^ 20) content)"
      using False by (intro "1.IH") simp_all
    also have "\<dots> = hash_update hashobj content"
      by (simp add: hash_update_append)
    finally show ?thesis .
  qed
qed

lemma hash_files_readable:
  "\<forall>f \<in> set fnames. fs f \<noteq> None \<Longrightarrow>
     hash_files fs hashobj fnames
       = Inr (hash_update hashobj (concat (map (\<lambda>f. the (fs f)) fnames)))"
proof (induction fnames arbitrary: hashobj)
  case Nil
  then show ?case by (simp add: hash_update_Nil)
next
  case (Cons f fnames)
  then obtain content where c: "fs f = Some content" by auto
  from Cons have "hash_files fs (read_chunks hashobj content) fnames
      = Inr (hash_update (read_chunks hashobj content) (concat (map (\<lambda>f. the (fs f)) fnames)))"
    by simp
  with c show ?case
    by (simp add: read_chunks_whole hash_update_append)
qed

lemma hash_files_not_ExpectedList: "hash_files fs hashobj fnames \<noteq> Inl (ExpectedList t)"
  by (induction fnames arbitrary: hashobj) (auto split: option.splits)

lemma digit_value_digit_char: "d < 16 \<Longrightarrow> digit_value (digit_char d) = Some d"
  by (simp add: digit_value_def digit_char_def Let_def)

lemma parse_digits_append:
  "parse_digits base acc (xs @ ys)
     = (case parse_digits base acc xs of None \<Rightarrow> None | Some a \<Rightarrow> parse_digits base a ys)"
  by (induction xs arbitrary: acc) (auto split: option.splits)

lemma parse_digits_str_of_nat: "parse_digits 10 0 (str_of_nat n) = Some n"
proof (induction n rule: str_of_nat.induct)
  case (1 n)
  show ?case
  proof (cases "n < 10")
    case True
    then show ?thesis
      by (simp add: str_of_nat.simps [of n] digit_value_digit_char)
  next
    case False
    have "n mod 10 < 16" by simp
    with False "1.IH" show ?thesis
      by (simp add: str_of_nat.simps [of n] parse_digits_append digit_value_digit_char)
  qed
qed

lemma str_of_nat_not_Nil: "str_of_nat n \<noteq> []"
  by (simp add: str_of_nat.simps [of n])

lemma parse_int_str_of_nat: "parse_int 10 (str_of_nat n) = Some n"
  by (simp add: parse_int_def str_of_nat_not_Nil parse_digits_str_of_nat)

lemma parse_digits_hex_byte:
  "parse_digits 16 acc (hex_byte b @ rest) = parse_digits 16 (acc * 256 + unat b) rest"
proof -
  have lt: "unat b < 256" using unsigned_less [of b, where ?'a = nat] by simp
  then have hi: "unat b div 16 < 16" by simp
  have lo: "unat b mod 16 < 16" by simp
  have eq: "(acc * 16 + unat b div 16) * 16 + unat b mod 16 = acc * 256 + unat b"
    by (simp add: algebra_simps)
  have "parse_digits 16 acc (hex_byte b @ rest)
      = parse_digits 16 ((acc * 16 + unat b div 16) * 16 + unat b mod 16) rest"
    using hi lo by (simp add: hex_byte_def digit_value_digit_char)
  then show ?thesis by (simp only: eq)
qed

lemma parse_digits_hex:
  "parse_digits 16 acc (concat (map hex_byte bs))
     = Some (foldl (\<lambda>acc b. acc * 256 + unat b) acc bs)"
  by (induction bs arbitrary: acc) (simp_all add: parse_digits_hex_byte)

lemma hex_not_Nil: "bs \<noteq> [] \<Longrightarrow> concat (map hex_byte bs) \<noteq> []"
proof -
  assume "bs \<noteq> []"
  then obtain b bs' where "bs = b # bs'" by (cases bs) auto
  then show ?thesis by (simp add: hex_byte_def)
qed

lemma parse_int_hex:
  "bs \<noteq> [] \<Longrightarrow> parse_int 16 (concat (map hex_byte bs)) = Some (int_from_bytes_big bs)"
proof -
  assume "bs \<noteq> []"
  then have "concat (map hex_byte bs) \<noteq> []" by (rule hex_not_Nil)
  then have "parse_int 16 (concat (map hex_byte bs))
      = parse_digits 16 0 (concat (map hex_byte bs))"
    unfolding parse_int_def by (rule if_not_P)
  then show ?thesis by (simp only: parse_digits_hex int_from_bytes_big_def)
qed

text \<open>
  Claim C8: the hash of no files with \<open>extrahash\<close> is the hash of the string \<open>extrahash\<close>,
  for either output format and algorithm.
\<close>

theorem files_hash_empty:
  "get_files_hash hashlib fs (PyList []) extrahash int_only hashtype
     = get_string_hash hashlib (PyStr extrahash) int_only hashtype"
  by (simp add: get_files_hash_def get_string_hash_def)

text \<open>
  Claim C9: the \<open>int_only\<close> output of \<open>get_string_hash\<close>, read as a decimal number, is the
  hex digest read in base 16; both are the big-endian value of the digest bytes. The
  digest is not empty (MD5 gives 16 bytes, SHA-256 gives 32).
\<close>

theorem string_hash_int_only:
  "hashlib hashtype (encode s) \<noteq> [] \<Longrightarrow>
     \<exists>dec hex n.
       get_string_hash hashlib (PyStr s) True hashtype = Inr dec
       \<and> get_string_hash hashlib (PyStr s) False hashtype = Inr hex
       \<and> parse_int 10 dec = Some n \<and> parse_int 16 hex = Some n
       \<and> n = int_from_bytes_big (hashlib hashtype (encode s))"
  by (simp add: get_string_hash_def hash_hexdigest_def hash_digest_def hash_update_def
      hash_new_def parse_int_str_of_nat parse_int_hex)

theorem string_hash_int_only_witness:
  "get_string_hash (\<lambda>t d. [1, 10]) (PyStr ''abc'') True MD5 = Inr ''266''
   \<and> get_string_hash (\<lambda>t d. [1, 10]) (PyStr ''abc'') False MD5 = Inr ''010a''
   \<and> parse_int 10 ''266'' = Some 266 \<and> parse_int 16 ''010a'' = Some 266"
proof -
  have d: "get_string_hash (\<lambda>t d. [1, 10]) (PyStr ''abc'') True MD5 = Inr ''266''"
    by code_simp
  have h: "get_string_hash (\<lambda>t d. [1, 10]) (PyStr ''abc'') False MD5 = Inr ''010a''"
    by code_simp
  have n: "int_from_bytes_big [1, 10] = 266" by code_simp
  from d h n string_hash_int_only [of "\<lambda>t d. [1, 10]" MD5 "''abc''"]
  show ?thesis by auto
qed

text \<open>
  Claim C3 as stated fails: a tuple is an ordered sequence, and \<open>get_files_hash\<close> raises
  its type error on it.
\<close>

theorem files_hash_type_check_counterexample:
  "is_sequence (PyTuple []) \<and>
   get_files_hash (\<lambda>t d. d) Map.empty (PyTuple []) '''' False MD5 = Inl (ExpectedList TupleType)"
  by (simp add: get_files_hash_def)

text \<open>
  Claim C3, amended: \<open>get_files_hash\<close> raises its type error exactly when \<open>filenames\<close> is
  not a list. A list passes the check, and when every file in it can be read the result
  is the digest of the contents of the files, in order, followed by the encoded
  \<open>extrahash\<close>.
\<close>

theorem files_hash_type_check:
  "((\<exists>t. get_files_hash hashlib fs filenames extrahash int_only hashtype
            = Inl (ExpectedList t))
      \<longleftrightarrow> type_of filenames \<noteq> ListType)
   \<and> ((\<forall>f \<in> set fnames. fs f \<noteq> None) \<longrightarrow>
        get_files_hash hashlib fs (PyList fnames) extrahash int_only hashtype
          = (let digest = hashlib hashtype
                            (concat (map (\<lambda>f. the (fs f)) fnames) @ encode extrahash)
             in if int_only then Inr (str_of_nat (int_from_bytes_big digest))
                else Inr (concat (map hex_byte digest))))"
proof (intro conjI impI)
  show "(\<exists>t. get_files_hash hashlib fs filenames extrahash int_only hashtype
            = Inl (ExpectedList t))
      \<longleftrightarrow> type_of filenames \<noteq> ListType"
    by (cases filenames)
       (auto simp: get_files_hash_def hash_files_not_ExpectedList Let_def
          split: sum.splits if_splits)
next
  assume "\<forall>f \<in> set fnames. fs f \<noteq> None"
  then have "hash_files fs (hash_new hashtype) fnames
      = Inr (hash_update (hash_new hashtype) (concat (map (\<lambda>f. the (fs f)) fnames)))"
    by (rule hash_files_readable)
  then show "get_files_hash hashlib fs (PyList fnames) extrahash int_only hashtype
      = (let digest = hashlib hashtype
                        (concat (map (\<lambda>f. the (fs f)) fnames) @ encode extrahash)
         in if int_only then Inr (str_of_nat (int_from_bytes_big digest))
            else Inr (concat (map hex_byte digest)))"
    by (simp add: get_files_hash_def hash_hexdigest_def hash_digest_def hash_update_def
        hash_new_def Let_def)
qed

theorem files_hash_type_check_witness:
  "get_files_hash (\<lambda>t d. d) [''a.txt'' \<mapsto> [1, 2]] (PyList [''a.txt'']) ''z'' False MD5
     = Inr ''01027a''"
proof -
  have r: "(\<forall>f \<in> set [''a.txt'']. [''a.txt'' \<mapsto> [1, 2 :: byte]] f \<noteq> None)" by simp
  have e: "encode ''z'' = [122]" by code_simp
  have h: "concat (map hex_byte [1, 2, 122]) = ''01027a''" by code_simp
  from r e h
    files_hash_type_check [of "\<lambda>t d. d" "[''a.txt'' \<mapsto> [1, 2]]" "PyList [''a.txt'']" "''z''"
      False MD5 "[''a.txt'']"]
  show ?thesis by simp
qed

end
